theory Spec2Isabelle
  imports Complex_Main "HOL-Library.Monad_Syntax"
begin

section \<open>Decimal arithmetic at 28 significant digits\<close>

text \<open>
  \<^verbatim>\<open>Kraken.py\<close> computes with Python's \<^verbatim>\<open>decimal.Decimal\<close> under
  \<^verbatim>\<open>getcontext().prec = 28\<close> and the default rounding mode, round-half-even.  A finite
  \<^verbatim>\<open>Decimal\<close> is modelled by the rational number it denotes.  Constructing a value from text
  is exact; each of \<^verbatim>\<open>+\<close>, \<^verbatim>\<open>-\<close>, \<^verbatim>\<open>*\<close> and \<^verbatim>\<open>/\<close> returns the exact result rounded
  to 28 significant digits; comparisons and \<^verbatim>\<open>min\<close> are exact.  The exponent limits of the
  context, the special values \<^verbatim>\<open>NaN\<close> and \<^verbatim>\<open>Infinity\<close>, and the textual form of a value
  (trailing zeros) are outside the model.
\<close>

type_synonym decimal = rat

definition prec :: int where
  "prec = 28"

text \<open>The number of decimal digits of a non-negative integer, \<^verbatim>\<open>len(str(n))\<close>.\<close>

function ndigits :: "int \<Rightarrow> nat" where
  "ndigits n = (if n < 10 then 1 else Suc (ndigits (n div 10)))"
  by pat_completeness auto
termination
  by (relation "measure nat") auto

text \<open>The exponent of the leading digit of a non-zero value: \<open>10 powi e \<le> \<bar>x\<bar> < 10 powi (e + 1)\<close>.\<close>

definition adjusted :: "decimal \<Rightarrow> int" where
  "adjusted x =
     (let (p, q) = quotient_of \<bar>x\<bar>;
          a = int (ndigits p) - int (ndigits q)
      in if 10 powi a \<le> \<bar>x\<bar> then a else a - 1)"

definition round_half_even :: "rat \<Rightarrow> int" where
  "round_half_even q =
     (let f = \<lfloor>q\<rfloor>; r = q - of_int f
      in if r < 1 / 2 then f
         else if 1 / 2 < r then f + 1
         else if even f then f else f + 1)"

definition rnd :: "rat \<Rightarrow> decimal" where
  "rnd x =
     (if x = 0 then 0
      else let s = adjusted x - (prec - 1)
           in of_int (round_half_even (x / 10 powi s)) * 10 powi s)"

definition dadd :: "decimal \<Rightarrow> decimal \<Rightarrow> decimal" where
  "dadd x y = rnd (x + y)"

definition dsub :: "decimal \<Rightarrow> decimal \<Rightarrow> decimal" where
  "dsub x y = rnd (x - y)"

definition dmul :: "decimal \<Rightarrow> decimal \<Rightarrow> decimal" where
  "dmul x y = rnd (x * y)"

text \<open>\<^verbatim>\<open>n / dnm\<close> raises on a zero divisor; \<open>None\<close> is the raised exception.\<close>

definition ddiv :: "decimal \<Rightarrow> decimal \<Rightarrow> decimal option" where
  "ddiv n dnm = (if dnm = 0 then None else Some (rnd (n / dnm)))"

text \<open>\<^verbatim>\<open>def safe_div(n, dnm): return (n / dnm) if dnm != 0 else Decimal("0")\<close>\<close>

definition safe_div :: "decimal \<Rightarrow> decimal \<Rightarrow> decimal option" where
  "safe_div n dnm = (if dnm \<noteq> 0 then ddiv n dnm else Some 0)"

section \<open>Pair normalisation\<close>

text \<open>Strings are lists of characters; the case conversions and \<^verbatim>\<open>strip\<close> cover ASCII.\<close>

definition startswith :: "string \<Rightarrow> string \<Rightarrow> bool" where
  "startswith s p = (take (length p) s = p)"

text \<open>\<^verbatim>\<open>s.replace(old, new)\<close> for a non-empty \<^verbatim>\<open>old\<close>: left to right, without overlaps.\<close>

function replace :: "string \<Rightarrow> string \<Rightarrow> string \<Rightarrow> string" where
  "replace old new [] = []"
| "replace old new (c # cs) =
     (if old \<noteq> [] \<and> startswith (c # cs) old
      then new @ replace old new (drop (length old) (c # cs))
      else c # replace old new cs)"
  by pat_completeness auto
termination
  by (relation "measure (\<lambda>(old, new, s). length s)") auto

definition upper_char :: "char \<Rightarrow> char" where
  "upper_char c =
     (let n = (of_char c :: nat) in if 97 \<le> n \<and> n \<le> 122 then char_of (n - 32) else c)"

definition lower_char :: "char \<Rightarrow> char" where
  "lower_char c =
     (let n = (of_char c :: nat) in if 65 \<le> n \<and> n \<le> 90 then char_of (n + 32) else c)"

definition upper :: "string \<Rightarrow> string" where
  "upper s = map upper_char s"

definition lower :: "string \<Rightarrow> string" where
  "lower s = map lower_char s"

definition is_space :: "char \<Rightarrow> bool" where
  "is_space c =
     (let n = (of_char c :: nat) in n = 32 \<or> (9 \<le> n \<and> n \<le> 13) \<or> (28 \<le> n \<and> n \<le> 31))"

definition strip :: "string \<Rightarrow> string" where
  "strip s = rev (dropWhile is_space (rev (dropWhile is_space s)))"

text \<open>\<^verbatim>\<open>s.rfind(c)\<close>: the last index of \<open>c\<close>, or \<open>-1\<close>.\<close>

fun rfind :: "string \<Rightarrow> char \<Rightarrow> int" where
  "rfind [] c = - 1"
| "rfind (x # xs) c =
     (let i = rfind xs c in if 0 \<le> i then i + 1 else if x = c then 0 else - 1)"

definition parse_pair :: "string \<Rightarrow> string \<times> string" where
  "parse_pair pair =
     (if pair = [] then ([], [])
      else
        let p = replace ''XBT'' ''BTC'' (upper (replace ''/'' '''' pair));
            i = nat (rfind p CHR ''Z'');
            left = take i p;
            right = drop (i + 1) p
        in if CHR ''Z'' \<in> set p \<and> 7 \<le> length p
              \<and> left \<noteq> [] \<and> right \<noteq> [] \<and> 3 \<le> length right \<and> length right \<le> 4
           then (if startswith left ''X'' \<and> 2 \<le> length left then drop 1 left else left, right)
           else if 4 < length p then (take (length p - 4) p, drop (length p - 4) p)
           else if 3 < length p then (take (length p - 3) p, drop (length p - 3) p)
           else (p, []))"

section \<open>Lots and ledgers\<close>

text \<open>A lot is the list \<^verbatim>\<open>[remaining_vol, unit_cost, total_cost]\<close> of the source.\<close>

record lot =
  remaining_vol :: decimal
  unit_cost :: decimal
  total_cost :: decimal

text \<open>One entry of \<^verbatim>\<open>agg\<close>; the field names are the dictionary keys.\<close>

record ledger =
  buy_vol :: decimal
  buy_cost :: decimal
  sell_vol :: decimal
  sell_proceeds :: decimal
  fees :: decimal
  lots :: "lot list"
  realized_pnl :: decimal
  last_ts :: rat
  pair_name :: "string option"

definition new_ledger :: ledger where
  "new_ledger =
     \<lparr>buy_vol = 0, buy_cost = 0, sell_vol = 0, sell_proceeds = 0, fees = 0, lots = [],
      realized_pnl = 0, last_ts = 0, pair_name = None\<rparr>"

definition INCLUDE_FEES_IN_COST :: bool where
  "INCLUDE_FEES_IN_COST = True"

definition ONLY_THESE_QUOTES :: "string list option" where
  "ONLY_THESE_QUOTES = None"

subsection \<open>The buy branch of \<^verbatim>\<open>aggregate_trades\<close>\<close>

text \<open>The lot a buy appends: \<^verbatim>\<open>[vol, unit_cost, buy_cost]\<close>.\<close>

definition buy_lot :: "decimal \<Rightarrow> decimal \<Rightarrow> decimal \<Rightarrow> lot option" where
  "buy_lot vol cost fee =
     do {
       let bcost = dadd cost (if INCLUDE_FEES_IN_COST then fee else 0);
       ucost \<leftarrow> (if vol > 0 then safe_div bcost vol else Some 0);
       Some \<lparr>remaining_vol = vol, unit_cost = ucost, total_cost = bcost\<rparr>
     }"

definition buy_branch :: "ledger \<Rightarrow> decimal \<Rightarrow> decimal \<Rightarrow> decimal \<Rightarrow> ledger option" where
  "buy_branch rec vol cost fee =
     do {
       let bcost = dadd cost (if INCLUDE_FEES_IN_COST then fee else 0);
       l \<leftarrow> buy_lot vol cost fee;
       Some (rec\<lparr>buy_vol := dadd (buy_vol rec) vol,
                 buy_cost := dadd (buy_cost rec) bcost,
                 fees := dadd (fees rec) fee,
                 lots := lots rec @ [l]\<rparr>)
     }"

subsection \<open>The sell branch of \<^verbatim>\<open>aggregate_trades\<close>\<close>

text \<open>
  The matching loop \<^verbatim>\<open>while remaining > 0 and rec["lots"]\<close>, returning the realized amount
  and the lot queue it leaves.
\<close>

function sell_loop :: "decimal \<Rightarrow> decimal \<Rightarrow> decimal \<Rightarrow> lot list \<Rightarrow> decimal \<times> lot list" where
  "sell_loop per_unit_proceeds remaining realized [] = (realized, [])"
| "sell_loop per_unit_proceeds remaining realized (l # rest) =
     (if remaining > 0 then
        let lot_vol = remaining_vol l;
            lot_px = unit_cost l;
            use = min lot_vol remaining;
            lot_cost_used = dmul use lot_px;
            portion_proceeds = dmul use per_unit_proceeds;
            realized' = dadd realized (dsub portion_proceeds lot_cost_used);
            lot_vol' = dsub lot_vol use;
            remaining' = dsub remaining use
        in if lot_vol' \<le> 0
           then sell_loop per_unit_proceeds remaining' realized' rest
           else sell_loop per_unit_proceeds remaining' realized'
                  (l\<lparr>remaining_vol := lot_vol', total_cost := dmul lot_vol' lot_px\<rparr> # rest)
      else (realized, l # rest))"
  by pat_completeness auto
termination
proof (relation "measure (\<lambda>(p, remaining, realized, ls).
          2 * length ls + (if remaining > 0 then 1 else 0))", goal_cases)
  case 1
  show ?case by simp
next
  case 2
  then show ?case by simp
next
  case (3 per_unit_proceeds remaining realized l rest lot_vol lot_px use)
  have "use = remaining"
  proof (rule ccontr)
    assume "use \<noteq> remaining"
    with 3 have "use = lot_vol" by (simp add: min_def split: if_splits)
    with 3 show False by (simp add: dsub_def rnd_def)
  qed
  then have "dsub remaining use = 0" by (simp add: dsub_def rnd_def)
  with 3 show ?case by simp
qed

definition per_unit :: "decimal \<Rightarrow> decimal \<Rightarrow> decimal option" where
  "per_unit proceeds vol = (if vol > 0 then safe_div proceeds vol else Some 0)"

definition sell_branch :: "ledger \<Rightarrow> decimal \<Rightarrow> decimal \<Rightarrow> decimal \<Rightarrow> ledger option" where
  "sell_branch rec vol cost fee =
     do {
       let proceeds = dsub cost (if INCLUDE_FEES_IN_COST then fee else 0);
       per_unit_proceeds \<leftarrow> per_unit proceeds vol;
       let (realized, ls) = sell_loop per_unit_proceeds vol 0 (lots rec);
       Some (rec\<lparr>sell_vol := dadd (sell_vol rec) vol,
                 sell_proceeds := dadd (sell_proceeds rec) proceeds,
                 fees := dadd (fees rec) fee,
                 lots := ls,
                 realized_pnl := dadd (realized_pnl rec) realized\<rparr>)
     }"

subsection \<open>Interactive adjustment\<close>

text \<open>\<^verbatim>\<open>sum((lot[i] for lot in rec["lots"]), Decimal("0"))\<close>\<close>

definition total_remaining :: "ledger \<Rightarrow> decimal \<times> decimal" where
  "total_remaining rec =
     (foldl (\<lambda>acc l. dadd acc (remaining_vol l)) 0 (lots rec),
      foldl (\<lambda>acc l. dadd acc (total_cost l)) 0 (lots rec))"

function shrink_loop :: "decimal \<Rightarrow> lot list \<Rightarrow> lot list" where
  "shrink_loop to_reduce [] = []"
| "shrink_loop to_reduce (l # rest) =
     (if to_reduce > 0 then
        let lot_vol = remaining_vol l;
            lot_px = unit_cost l;
            use = min lot_vol to_reduce;
            lot_vol' = dsub lot_vol use;
            to_reduce' = dsub to_reduce use
        in if lot_vol' \<le> 0
           then shrink_loop to_reduce' rest
           else shrink_loop to_reduce'
                  (l\<lparr>remaining_vol := lot_vol', total_cost := dmul lot_vol' lot_px\<rparr> # rest)
      else l # rest)"
  by pat_completeness auto
termination
proof (relation "measure (\<lambda>(to_reduce, ls).
          2 * length ls + (if to_reduce > 0 then 1 else 0))", goal_cases)
  case 1
  show ?case by simp
next
  case 2
  then show ?case by simp
next
  case (3 to_reduce l rest lot_vol lot_px use)
  have "use = to_reduce"
  proof (rule ccontr)
    assume "use \<noteq> to_reduce"
    with 3 have "use = lot_vol" by (simp add: min_def split: if_splits)
    with 3 show False by (simp add: dsub_def rnd_def)
  qed
  then have "dsub to_reduce use = 0" by (simp add: dsub_def rnd_def)
  with 3 show ?case by simp
qed

definition shrink_lots_fifo_to_target :: "ledger \<Rightarrow> decimal \<Rightarrow> ledger" where
  "shrink_lots_fifo_to_target rec target_vol =
     (let (current_vol, _) = total_remaining rec
      in if target_vol \<ge> current_vol then rec
         else rec\<lparr>lots := shrink_loop (dsub current_vol target_vol) (lots rec)\<rparr>)"

section \<open>Aggregation over the trade history\<close>

text \<open>
  A numeric entry of a trade dictionary, as \<^verbatim>\<open>t.get(key)\<close> finds it: absent or falsy, a
  text that \<^verbatim>\<open>d\<close> parses, or something \<^verbatim>\<open>d\<close> raises on.
\<close>

datatype field = Missing | Num decimal | Malformed

record trade =
  t_pair :: string
  t_type :: string
  t_vol :: field
  t_price :: field
  t_cost :: field
  t_fee :: field
  t_time :: field

text \<open>
  \<^verbatim>\<open>d(t.get(key) or dflt)\<close>; \<open>None\<close> is the exception of the \<^verbatim>\<open>try\<close> block.  The time
  of a trade is read the same way, as the number its text denotes, where the code calls
  \<^verbatim>\<open>float\<close>; it only feeds \<open>last_ts\<close>.
\<close>

fun d_or :: "field \<Rightarrow> decimal \<Rightarrow> decimal option" where
  "d_or Missing dflt = Some dflt"
| "d_or (Num v) dflt = Some v"
| "d_or Malformed dflt = None"

definition parse_trade ::
  "trade \<Rightarrow> (string \<times> string \<times> decimal \<times> decimal \<times> decimal \<times> decimal \<times> rat) option" where
  "parse_trade t =
     do {
       let pname = strip (t_pair t);
       let typ = lower (t_type t);
       vol \<leftarrow> d_or (t_vol t) 0;
       price \<leftarrow> d_or (t_price t) 0;
       cost \<leftarrow> d_or (t_cost t) (dmul vol price);
       fee \<leftarrow> d_or (t_fee t) 0;
       ts \<leftarrow> d_or (t_time t) 0;
       Some (pname, typ, vol, price, cost, fee, ts)
     }"

definition apply_trade ::
  "ledger \<Rightarrow> string \<Rightarrow> decimal \<Rightarrow> decimal \<Rightarrow> decimal \<Rightarrow> ledger option" where
  "apply_trade rec typ vol cost fee =
     (if typ = ''buy'' then buy_branch rec vol cost fee
      else if typ = ''sell'' then sell_branch rec vol cost fee
      else Some rec)"

type_synonym agg = "string \<times> string \<rightharpoonup> ledger"

text \<open>The loop of \<^verbatim>\<open>aggregate_trades\<close>; \<open>None\<close> is an exception that leaves the function.\<close>

fun aggregate_loop :: "agg \<Rightarrow> trade list \<Rightarrow> agg option" where
  "aggregate_loop agg [] = Some agg"
| "aggregate_loop agg (t # ts) =
     (case parse_trade t of
        None \<Rightarrow> aggregate_loop agg ts
      | Some (pname, typ, vol, price, cost, fee, ts') \<Rightarrow>
          let (base, quote) = parse_pair pname
          in if (case ONLY_THESE_QUOTES of None \<Rightarrow> False
                 | Some qs \<Rightarrow> qs \<noteq> [] \<and> quote \<notin> set qs)
             then aggregate_loop agg ts
             else
               let rec0 = (case agg (base, quote) of None \<Rightarrow> new_ledger | Some r \<Rightarrow> r);
                   rec1 = rec0\<lparr>last_ts := max (last_ts rec0) ts'\<rparr>;
                   rec2 = (if pair_name rec1 = None \<or> pair_name rec1 = Some []
                           then rec1\<lparr>pair_name := Some pname\<rparr> else rec1)
               in case apply_trade rec2 typ vol cost fee of
                    None \<Rightarrow> None
                  | Some rec3 \<Rightarrow> aggregate_loop (agg((base, quote) \<mapsto> rec3)) ts)"

definition aggregate_trades :: "trade list \<Rightarrow> agg option" where
  "aggregate_trades trades = aggregate_loop Map.empty trades"

section \<open>Valuation\<close>

text \<open>
  The numbers of one row of \<^verbatim>\<open>build_rows_with_prices\<close>, before \<^verbatim>\<open>str\<close> renders them; the
  current price is the ticker's price for the ledger's pair, \<open>0\<close> when there is none.
\<close>

record row =
  total_bought :: decimal
  avg_buy_price :: decimal
  total_sold :: decimal
  avg_sell_price :: decimal
  net_from_history :: decimal
  remaining_unsold_volume :: decimal
  avg_buy_price_of_remaining :: decimal
  fees_total :: decimal
  row_realized_pnl :: decimal
  current_price :: decimal
  unrealized_pnl :: decimal

definition build_row :: "ledger \<Rightarrow> decimal \<Rightarrow> row option" where
  "build_row r price =
     do {
       avg_buy \<leftarrow> (if buy_vol r > 0 then safe_div (buy_cost r) (buy_vol r) else Some 0);
       avg_sell \<leftarrow> (if sell_vol r > 0 then safe_div (sell_proceeds r) (sell_vol r) else Some 0);
       let (remaining_vol', remaining_cost) = total_remaining r;
       remaining_avg_buy \<leftarrow>
         (if remaining_vol' > 0 then safe_div remaining_cost remaining_vol' else Some 0);
       let unrealized =
         (if price > 0 \<and> remaining_vol' > 0
          then foldl (\<lambda>u l. dadd u (dmul (dsub price (unit_cost l)) (remaining_vol l))) 0 (lots r)
          else 0);
       Some \<lparr>total_bought = buy_vol r, avg_buy_price = avg_buy, total_sold = sell_vol r,
             avg_sell_price = avg_sell, net_from_history = dsub (buy_vol r) (sell_vol r),
             remaining_unsold_volume = remaining_vol',
             avg_buy_price_of_remaining = remaining_avg_buy, fees_total = fees r,
             row_realized_pnl = realized_pnl r, current_price = price,
             unrealized_pnl = unrealized\<rparr>
     }"

section \<open>Operation sequences on one ledger\<close>

text \<open>
  What \<^verbatim>\<open>main\<close> does to one ledger: the buys and sells of the history, then the shrinks of
  \<^verbatim>\<open>maybe_adjust_balances\<close>.  Each operation carries volume, cost and fee, or the target.
\<close>

datatype op = Buy decimal decimal decimal | Sell decimal decimal decimal | Shrink decimal

fun apply_op :: "ledger \<Rightarrow> op \<Rightarrow> ledger option" where
  "apply_op rec (Buy vol cost fee) = buy_branch rec vol cost fee"
| "apply_op rec (Sell vol cost fee) = sell_branch rec vol cost fee"
| "apply_op rec (Shrink target) = Some (shrink_lots_fifo_to_target rec target)"

fun run :: "ledger \<Rightarrow> op list \<Rightarrow> ledger option" where
  "run rec [] = Some rec"
| "run rec (x # xs) = (case apply_op rec x of None \<Rightarrow> None | Some rec' \<Rightarrow> run rec' xs)"

section \<open>Notions used to state the properties\<close>

text \<open>The equation between the three components of a lot, with the product as the code computes it.\<close>

definition lot_ok :: "lot \<Rightarrow> bool" where
  "lot_ok l = (total_cost l = dmul (remaining_vol l) (unit_cost l))"


text \<open>The volume held in a lot queue, as a sum of rational numbers.\<close>

definition lots_volume :: "lot list \<Rightarrow> rat" where
  "lots_volume ls = sum_list (map remaining_vol ls)"

text \<open>The volume a shrink is asked to remove: \<^verbatim>\<open>current_vol - target_vol\<close>, nothing for a no-op.\<close>

definition shrink_request :: "ledger \<Rightarrow> decimal \<Rightarrow> rat" where
  "shrink_request rec target_vol =
     (let (current_vol, _) = total_remaining rec
      in if target_vol \<ge> current_vol then 0 else current_vol - target_vol)"

fun shrunk_total :: "ledger \<Rightarrow> op list \<Rightarrow> rat" where
  "shrunk_total rec [] = 0"
| "shrunk_total rec (x # xs) =
     (case x of Shrink target \<Rightarrow> shrink_request rec target | _ \<Rightarrow> 0)
     + (case apply_op rec x of None \<Rightarrow> 0 | Some rec' \<Rightarrow> shrunk_total rec' xs)"

text \<open>\<open>places k x\<close>: the value \<open>x\<close> has at most \<open>k\<close> digits after the decimal point.\<close>

definition places :: "nat \<Rightarrow> rat \<Rightarrow> bool" where
  "places k x = (of_int \<lfloor>x * 10 ^ k\<rfloor> = x * 10 ^ k)"

text \<open>
  An operation that stays within recorded inventory and within the working precision:
  volumes and targets are non-negative with at most \<open>k\<close> decimal places, the bought volume
  keeps fewer than \<open>28 - k\<close> integer digits, and a sell does not exceed the volume held.
\<close>

fun admissible :: "nat \<Rightarrow> ledger \<Rightarrow> op \<Rightarrow> bool" where
  "admissible k rec (Buy vol cost fee) =
     (0 \<le> vol \<and> places k vol \<and> (buy_vol rec + vol) * 10 ^ k < 10 ^ 28)"
| "admissible k rec (Sell vol cost fee) =
     (0 \<le> vol \<and> places k vol \<and> vol \<le> lots_volume (lots rec))"
| "admissible k rec (Shrink target) = (0 \<le> target \<and> places k target)"

fun admissible_run :: "nat \<Rightarrow> ledger \<Rightarrow> op list \<Rightarrow> bool" where
  "admissible_run k rec [] = True"
| "admissible_run k rec (x # xs) =
     (admissible k rec x \<and>
      (case apply_op rec x of None \<Rightarrow> False | Some rec' \<Rightarrow> admissible_run k rec' xs))"

text \<open>
  The realized amount of a sell that matches every lot of the queue whole: for each lot, in
  queue order, its volume times the per-unit proceeds minus its volume times its unit cost.
\<close>

definition matched_pnl :: "decimal \<Rightarrow> lot list \<Rightarrow> decimal" where
  "matched_pnl p ls =
     foldl (\<lambda>z l. dadd z (dsub (dmul (remaining_vol l) p)
                               (dmul (remaining_vol l) (unit_cost l)))) 0 ls"

text \<open>
  The state of a ledger that has stayed within recorded inventory and within the working
  precision, after shrinks that were asked to remove \<open>shrunk\<close> in total.
\<close>

definition ledger_inv :: "nat \<Rightarrow> ledger \<Rightarrow> rat \<Rightarrow> bool" where
  "ledger_inv k rec shrunk =
     ((\<forall>l\<in>set (lots rec). 0 \<le> remaining_vol l \<and> places k (remaining_vol l))
      \<and> places k (buy_vol rec) \<and> places k (sell_vol rec) \<and> places k shrunk
      \<and> 0 \<le> sell_vol rec \<and> 0 \<le> shrunk \<and> buy_vol rec * 10 ^ k < 10 ^ 28
      \<and> lots_volume (lots rec) = buy_vol rec - sell_vol rec - shrunk)"

section \<open>Facts about rounding\<close>

declare ndigits.simps [simp del]

lemma ndigits_pos: "0 < ndigits n"
  by (subst ndigits.simps) simp

lemma ndigits_bounds: "0 < n \<Longrightarrow> 10 ^ (ndigits n - 1) \<le> n \<and> n < 10 ^ ndigits n"
proof (induction n rule: ndigits.induct)
  case (1 n)
  show ?case
  proof (cases "n < 10")
    case True
    then have "ndigits n = 1" by (subst ndigits.simps) simp
    with True 1 show ?thesis by simp
  next
    case False
    then have pos: "0 < n div 10" by simp
    from "1.IH"[OF False pos]
    have a: "10 ^ (ndigits (n div 10) - 1) \<le> n div 10" and b: "n div 10 < 10 ^ ndigits (n div 10)"
      by simp_all
    have nd: "ndigits n = Suc (ndigits (n div 10))" using False by (subst ndigits.simps) simp
    obtain m where m: "ndigits (n div 10) = Suc m"
      using ndigits_pos[of "n div 10"] by (cases "ndigits (n div 10)") auto
    have "(10::int) * 10 ^ m \<le> 10 * (n div 10)" using a m by simp
    also have "\<dots> \<le> n" by simp
    finally have lo: "10 ^ (ndigits n - 1) \<le> n" using nd m by simp
    have "n < 10 * (n div 10) + 10" by presburger
    also have "\<dots> \<le> 10 * 10 ^ ndigits (n div 10)" using b by simp
    finally have hi: "n < 10 ^ ndigits n" using nd by simp
    from lo hi show ?thesis by simp
  qed
qed

lemma adjusted_bounds:
  assumes "x \<noteq> 0"
  shows "10 powi adjusted x \<le> \<bar>x\<bar> \<and> \<bar>x\<bar> < 10 powi (adjusted x + 1)"
proof -
  obtain p q where pq: "quotient_of \<bar>x\<bar> = (p, q)" by (cases "quotient_of \<bar>x\<bar>")
  have qpos: "0 < q" using quotient_of_denom_pos[OF pq] .
  have xeq: "\<bar>x\<bar> = of_int p / of_int q" using quotient_of_div[OF pq] .
  have xpos: "0 < \<bar>x\<bar>" using assms by simp
  have ppos: "0 < p"
    using xpos qpos unfolding xeq by (simp add: zero_less_divide_iff)
  define a where "a = int (ndigits p) - int (ndigits q)"
  obtain dp where dp: "ndigits p = Suc dp"
    using ndigits_pos[of p] by (cases "ndigits p") auto
  obtain dq where dq: "ndigits q = Suc dq"
    using ndigits_pos[of q] by (cases "ndigits q") auto
  have Pb: "10 ^ dp \<le> p" "p < 10 ^ Suc dp"
    using ndigits_bounds[OF ppos] dp by simp_all
  have Qb: "10 ^ dq \<le> q" "q < 10 ^ Suc dq"
    using ndigits_bounds[OF qpos] dq by simp_all
  have Pr: "(10::rat) ^ dp \<le> of_int p" "(of_int p :: rat) < 10 ^ Suc dp"
    using Pb by (metis of_int_le_iff of_int_numeral of_int_power,
                 metis of_int_less_iff of_int_numeral of_int_power)
  have Qr: "(10::rat) ^ dq \<le> of_int q" "(of_int q :: rat) < 10 ^ Suc dq"
    using Qb by (metis of_int_le_iff of_int_numeral of_int_power,
                 metis of_int_less_iff of_int_numeral of_int_power)
  have qrpos: "(0::rat) < of_int q" using qpos by simp
  have a_eq: "a = int dp - int dq" by (simp add: a_def dp dq)
  have up: "\<bar>x\<bar> < 10 powi (a + 1)"
  proof -
    have "(of_int p :: rat) / of_int q < 10 ^ Suc dp / 10 ^ dq"
      using Pr(2) Qr(1) ppos by (intro frac_less) simp_all
    also have "\<dots> = 10 powi int (Suc dp) / 10 powi int dq"
      by (simp only: power_int_of_nat)
    also have "\<dots> = 10 powi (int (Suc dp) - int dq)"
      by (rule power_int_diff[symmetric]) simp
    also have "int (Suc dp) - int dq = a + 1" by (simp add: a_eq)
    finally show ?thesis by (simp add: xeq)
  qed
  have lo: "10 powi (a - 1) \<le> \<bar>x\<bar>"
  proof -
    have e: "a - 1 = int dp - int (Suc dq)" by (simp add: a_eq)
    have "(10::rat) powi (a - 1) = 10 powi (int dp - int (Suc dq))"
      by (simp only: e)
    also have "\<dots> = 10 powi int dp / 10 powi int (Suc dq)"
      by (rule power_int_diff) simp
    also have "\<dots> = 10 ^ dp / 10 ^ Suc dq"
      by (simp only: power_int_of_nat)
    also have "\<dots> \<le> of_int p / of_int q"
      using Pr(1) Qr(2) qrpos ppos by (intro frac_le) simp_all
    finally show ?thesis by (simp add: xeq)
  qed
  have adj: "adjusted x = (if 10 powi a \<le> \<bar>x\<bar> then a else a - 1)"
    by (simp add: adjusted_def pq a_def Let_def)
  show ?thesis
  proof (cases "10 powi a \<le> \<bar>x\<bar>")
    case True
    then show ?thesis using up adj by simp
  next
    case False
    then show ?thesis using lo adj by simp
  qed
qed

lemma round_half_even_of_int [simp]: "round_half_even (of_int m) = m"
  by (simp add: round_half_even_def)

lemma floor_le_round_half_even: "\<lfloor>q\<rfloor> \<le> round_half_even q"
  by (simp add: round_half_even_def Let_def)

lemma rnd_zero [simp]: "rnd 0 = 0"
  by (simp add: rnd_def)

text \<open>Rounding keeps the sign of a positive value: the kept coefficient has 28 digits.\<close>

lemma rnd_pos:
  assumes "0 < x"
  shows "0 < rnd x"
proof -
  have x0: "x \<noteq> 0" using assms by simp
  define s where "s = adjusted x - (prec - 1)"
  have "10 powi adjusted x \<le> x" using adjusted_bounds[OF x0] assms by simp
  then have A: "10 powi adjusted x / 10 powi s \<le> x / 10 powi s"
    by (intro divide_right_mono) simp_all
  have e: "adjusted x - s = 27" by (simp add: s_def prec_def)
  have "(10::rat) powi adjusted x / 10 powi s = 10 powi (adjusted x - s)"
    by (rule power_int_diff[symmetric]) simp
  then have B: "(10::rat) powi adjusted x / 10 powi s = 10 powi 27" by (simp only: e)
  have "(1::rat) \<le> 10 powi 27" by simp
  also have "\<dots> = 10 powi adjusted x / 10 powi s" by (simp only: B)
  also note A
  finally have "(1::rat) \<le> x / 10 powi s" .
  then have "1 \<le> \<lfloor>x / 10 powi s\<rfloor>" by (simp add: le_floor_iff)
  then have "0 < round_half_even (x / 10 powi s)"
    using floor_le_round_half_even[of "x / 10 powi s"] by linarith
  then have "0 < (of_int (round_half_even (x / 10 powi s)) :: rat) * 10 powi s"
    by (intro mult_pos_pos) simp_all
  then show ?thesis using x0 by (simp add: rnd_def s_def Let_def)
qed

text \<open>A value with at most \<open>k\<close> decimal places whose coefficient has at most 28 digits is
  representable, so rounding leaves it alone.\<close>

lemma rnd_exact:
  assumes "\<bar>n\<bar> < 10 ^ 28"
  shows "rnd (of_int n / 10 ^ k) = of_int n / 10 ^ k"
proof (cases "n = 0")
  case True
  then show ?thesis by simp
next
  case False
  define x :: rat where "x = of_int n / 10 ^ k"
  have x0: "x \<noteq> 0" using False by (simp add: x_def)
  define s where "s = adjusted x - (prec - 1)"
  have xk: "x = of_int n * 10 powi (- int k)"
    by (simp add: x_def power_int_minus field_simps)
  have "\<bar>x\<bar> = of_int \<bar>n\<bar> * 10 powi (- int k)"
    by (simp add: xk abs_mult)
  also have "\<dots> < 10 ^ 28 * 10 powi (- int k)"
  proof -
    have "(of_int \<bar>n\<bar> :: rat) < of_int (10 ^ 28)" using assms by (simp only: of_int_less_iff)
    then have "(of_int \<bar>n\<bar> :: rat) < 10 ^ 28" by simp
    then show ?thesis by (intro mult_strict_right_mono) simp_all
  qed
  also have "\<dots> = 10 powi (28 - int k)"
    by (subst power_int_diff) (simp_all add: power_int_minus field_simps)
  finally have ub: "\<bar>x\<bar> < 10 powi (28 - int k)" .
  from adjusted_bounds[OF x0] have "10 powi adjusted x \<le> \<bar>x\<bar>" by simp
  with ub have "(10::rat) powi adjusted x < 10 powi (28 - int k)" by simp
  then have "adjusted x < 28 - int k"
    by (metis less_le_not_le linorder_not_less one_less_numeral_iff power_int_increasing
        semiring_norm(76) less_imp_le)
  then have sk: "s \<le> - int k" by (simp add: s_def prec_def)
  define j where "j = nat (- int k - s)"
  have js: "int j = - int k - s" using sk by (simp add: j_def)
  have "x / 10 powi s = of_int n * (10 powi (- int k) / 10 powi s)" by (simp add: xk)
  also have "10 powi (- int k) / (10::rat) powi s = 10 powi (- int k - s)"
    by (subst power_int_diff) simp_all
  also have "\<dots> = 10 ^ j" using js by (metis power_int_of_nat)
  finally have q: "x / 10 powi s = of_int (n * 10 ^ j)" by simp
  have "rnd x = of_int (round_half_even (x / 10 powi s)) * 10 powi s"
    using x0 by (simp add: rnd_def s_def Let_def)
  also have "\<dots> = of_int (n * 10 ^ j) * 10 powi s"
    by (simp only: q round_half_even_of_int)
  also have "\<dots> = (x / 10 powi s) * 10 powi s" by (simp only: q)
  also have "\<dots> = x" by simp
  finally show ?thesis by (simp add: x_def)
qed

lemma places_iff: "places k x \<longleftrightarrow> x * 10 ^ k \<in> \<int>"
  by (auto simp: places_def Ints_def)

lemma rnd_places:
  assumes "places k x" and "\<bar>x\<bar> * 10 ^ k < 10 ^ 28"
  shows "rnd x = x"
proof -
  from assms(1) obtain n :: int where n: "x * 10 ^ k = of_int n"
    by (auto simp: places_iff Ints_def)
  have xn: "x = of_int n / 10 ^ k"
    by (simp add: n[symmetric])
  have "\<bar>of_int n :: rat\<bar> = \<bar>x\<bar> * 10 ^ k"
    by (simp add: n[symmetric] abs_mult)
  with assms(2) have "\<bar>of_int n :: rat\<bar> < 10 ^ 28" by simp
  then have "(of_int \<bar>n\<bar> :: rat) < of_int (10 ^ 28)" by simp
  then have "\<bar>n\<bar> < 10 ^ 28" by (simp only: of_int_less_iff)
  from rnd_exact[OF this, of k] show ?thesis by (simp add: xn)
qed

lemma rnd_eval:
  "x * 10 ^ k \<in> \<int> \<Longrightarrow> \<bar>x\<bar> * 10 ^ k < 10 ^ 28 \<Longrightarrow> rnd x = x"
  by (rule rnd_places[of k]) (simp_all add: places_iff)

section \<open>The loops, one step at a time\<close>

lemma dsub_self [simp]: "dsub x x = 0"
  by (simp add: dsub_def)

lemma dsub_pos: "y < x \<Longrightarrow> 0 < dsub x y"
  by (simp add: dsub_def rnd_pos)

lemma shrink_loop_Cons:
  "shrink_loop r (l # rest) =
     (if 0 < r then
        if remaining_vol l \<le> r then shrink_loop (dsub r (remaining_vol l)) rest
        else l\<lparr>remaining_vol := dsub (remaining_vol l) r,
               total_cost := dmul (dsub (remaining_vol l) r) (unit_cost l)\<rparr> # rest
      else l # rest)"
proof (cases "0 < r")
  case False
  then show ?thesis by simp
next
  case r: True
  show ?thesis
  proof (cases "remaining_vol l \<le> r")
    case True
    then show ?thesis using r by (simp add: min_def)
  next
    case False
    then have lt: "r < remaining_vol l" by simp
    have p: "\<not> dsub (remaining_vol l) r \<le> 0" using dsub_pos[OF lt] by simp
    show ?thesis using r False p by (simp add: min_def Let_def)
  qed
qed

lemma sell_loop_Cons:
  "sell_loop p r z (l # rest) =
     (if 0 < r then
        if remaining_vol l \<le> r
        then sell_loop p (dsub r (remaining_vol l))
               (dadd z (dsub (dmul (remaining_vol l) p) (dmul (remaining_vol l) (unit_cost l)))) rest
        else (dadd z (dsub (dmul r p) (dmul r (unit_cost l))),
              l\<lparr>remaining_vol := dsub (remaining_vol l) r,
                 total_cost := dmul (dsub (remaining_vol l) r) (unit_cost l)\<rparr> # rest)
      else (z, l # rest))"
proof (cases "0 < r")
  case False
  then show ?thesis by simp
next
  case r: True
  show ?thesis
  proof (cases "remaining_vol l \<le> r")
    case True
    then show ?thesis using r by (simp add: min_def Let_def)
  next
    case False
    then have lt: "r < remaining_vol l" by simp
    have p: "\<not> dsub (remaining_vol l) r \<le> 0" using dsub_pos[OF lt] by simp
    show ?thesis using r False p by (simp add: min_def Let_def)
  qed
qed

lemma sell_loop_lots: "snd (sell_loop p r z ls) = shrink_loop r ls"
proof (induction ls arbitrary: r z)
  case Nil
  show ?case by simp
next
  case (Cons l rest)
  show ?case
    by (simp only: sell_loop_Cons shrink_loop_Cons Cons.IH split: if_split) simp
qed

declare shrink_loop.simps(2) [simp del] sell_loop.simps(2) [simp del]

section \<open>The branches never raise\<close>

lemma per_unit_eq: "per_unit proceeds vol = Some (if 0 < vol then rnd (proceeds / vol) else 0)"
  by (simp add: per_unit_def safe_div_def ddiv_def)

lemma buy_lot_eq:
  "buy_lot vol cost fee =
     Some \<lparr>remaining_vol = vol,
           unit_cost = (if 0 < vol then rnd (dadd cost fee / vol) else 0),
           total_cost = dadd cost fee\<rparr>"
  by (simp add: buy_lot_def safe_div_def ddiv_def INCLUDE_FEES_IN_COST_def Let_def)

lemma buy_branch_eq:
  "buy_branch rec vol cost fee =
     Some (rec\<lparr>buy_vol := dadd (buy_vol rec) vol,
               buy_cost := dadd (buy_cost rec) (dadd cost fee),
               fees := dadd (fees rec) fee,
               lots := lots rec @ [\<lparr>remaining_vol = vol,
                 unit_cost = (if 0 < vol then rnd (dadd cost fee / vol) else 0),
                 total_cost = dadd cost fee\<rparr>]\<rparr>)"
  by (simp add: buy_branch_def buy_lot_eq INCLUDE_FEES_IN_COST_def Let_def)

lemma sell_branch_eq:
  "sell_branch rec vol cost fee =
     Some (rec\<lparr>sell_vol := dadd (sell_vol rec) vol,
               sell_proceeds := dadd (sell_proceeds rec) (dsub cost fee),
               fees := dadd (fees rec) fee,
               lots := shrink_loop vol (lots rec),
               realized_pnl := dadd (realized_pnl rec)
                 (fst (sell_loop (if 0 < vol then rnd (dsub cost fee / vol) else 0) vol 0
                        (lots rec)))\<rparr>)"
  by (simp add: sell_branch_def per_unit_eq INCLUDE_FEES_IN_COST_def split_beta
      sell_loop_lots Let_def)

lemma shrink_eq:
  "shrink_lots_fifo_to_target rec target =
     (if fst (total_remaining rec) \<le> target then rec
      else rec\<lparr>lots := shrink_loop (dsub (fst (total_remaining rec)) target) (lots rec)\<rparr>)"
  by (simp add: shrink_lots_fifo_to_target_def split_beta)

section \<open>The queue is consumed from its head\<close>

lemma shrink_loop_suffix:
  "\<exists>n. n \<le> length ls \<and> map unit_cost (shrink_loop r ls) = drop n (map unit_cost ls)
      \<and> tl (shrink_loop r ls) = drop (Suc n) ls"
proof (induction ls arbitrary: r)
  case Nil
  show ?case by simp
next
  case (Cons l rest)
  show ?case
  proof (cases "0 < r \<and> remaining_vol l \<le> r")
    case True
    from Cons.IH[of "dsub r (remaining_vol l)"] obtain n where
      n: "n \<le> length rest"
         "map unit_cost (shrink_loop (dsub r (remaining_vol l)) rest) = drop n (map unit_cost rest)"
         "tl (shrink_loop (dsub r (remaining_vol l)) rest) = drop (Suc n) rest"
      by blast
    have "shrink_loop r (l # rest) = shrink_loop (dsub r (remaining_vol l)) rest"
      using True by (simp add: shrink_loop_Cons)
    with n show ?thesis by (intro exI[of _ "Suc n"]) simp
  next
    case False
    then show ?thesis
      by (intro exI[of _ 0]) (auto simp: shrink_loop_Cons)
  qed
qed




lemma apply_op_Some: "\<exists>rec'. apply_op rec x = Some rec'"
  by (cases x) (simp_all add: buy_branch_eq sell_branch_eq)

lemma run_Some: "\<exists>rec'. run rec xs = Some rec'"
proof (induction xs arbitrary: rec)
  case Nil
  show ?case by simp
next
  case (Cons x xs)
  obtain rec1 where "apply_op rec x = Some rec1" using apply_op_Some by blast
  with Cons.IH[of rec1] show ?case by simp
qed


text \<open>Unfolding the operations on concrete numbers.\<close>

lemmas eval_defs = buy_branch_def buy_lot_def sell_branch_def per_unit_def safe_div_def ddiv_def
  dadd_def dsub_def dmul_def INCLUDE_FEES_IN_COST_def new_ledger_def Let_def
  sell_loop_Cons shrink_loop_Cons shrink_lots_fifo_to_target_def total_remaining_def

section \<open>Volumes that stay exact\<close>

lemma places_0 [simp]: "places k 0"
  by (simp add: places_iff)

lemma places_add: "places k x \<Longrightarrow> places k y \<Longrightarrow> places k (x + y)"
  by (simp add: places_iff distrib_right)

lemma places_diff: "places k x \<Longrightarrow> places k y \<Longrightarrow> places k (x - y)"
  by (simp add: places_iff left_diff_distrib)

lemma scale_bound:
  fixes x b c :: rat
  assumes "x \<le> b" and "b * 10 ^ k < c"
  shows "x * 10 ^ k < c"
proof -
  have "x * 10 ^ k \<le> b * 10 ^ k" using assms(1) by (intro mult_right_mono) simp_all
  then show ?thesis using assms(2) by (rule order_le_less_trans)
qed

lemma rnd_fits:
  assumes "places k x" and "0 \<le> x" and "x \<le> b" and "b * 10 ^ k < 10 ^ 28"
  shows "rnd x = x"
proof -
  have "\<bar>x\<bar> = x" using assms(2) by simp
  with scale_bound[OF assms(3,4)] have "\<bar>x\<bar> * 10 ^ k < 10 ^ 28" by simp
  with assms(1) show ?thesis by (rule rnd_places)
qed

lemma lots_volume_Nil [simp]: "lots_volume [] = 0"
  by (simp add: lots_volume_def)

lemma lots_volume_Cons [simp]: "lots_volume (l # ls) = remaining_vol l + lots_volume ls"
  by (simp add: lots_volume_def)

lemma lots_volume_append [simp]: "lots_volume (xs @ ys) = lots_volume xs + lots_volume ys"
  by (simp add: lots_volume_def)

lemma lots_volume_nonneg: "\<forall>l\<in>set ls. 0 \<le> remaining_vol l \<Longrightarrow> 0 \<le> lots_volume ls"
  by (induction ls) auto

lemma lots_volume_places: "\<forall>l\<in>set ls. places k (remaining_vol l) \<Longrightarrow> places k (lots_volume ls)"
  by (induction ls) (auto intro: places_add)

text \<open>A request above the volume held empties the queue, lot by lot.\<close>

lemma sell_loop_oversell:
  assumes "\<forall>l\<in>set ls. 0 \<le> remaining_vol l \<and> places k (remaining_vol l)"
    and "places k r" and "r * 10 ^ k < 10 ^ 28" and "lots_volume ls < r"
  shows "sell_loop p r z ls =
     (foldl (\<lambda>z l. dadd z (dsub (dmul (remaining_vol l) p)
                               (dmul (remaining_vol l) (unit_cost l)))) z ls, [])"
  using assms
proof (induction ls arbitrary: r z)
  case Nil
  show ?case by simp
next
  case (Cons l rest)
  let ?v = "remaining_vol l"
  have v0: "0 \<le> ?v" and vp: "places k ?v" using Cons.prems(1) by simp_all
  have rest0: "0 \<le> lots_volume rest"
    using Cons.prems(1) by (intro lots_volume_nonneg) simp
  have lt: "?v + lots_volume rest < r" using Cons.prems(4) by simp
  have vr: "?v \<le> r" and rpos: "0 < r" using lt v0 rest0 by linarith+
  have ex: "dsub r ?v = r - ?v"
    unfolding dsub_def
    by (rule rnd_fits[of k _ r]) (use vr v0 Cons.prems(2,3) vp in \<open>simp_all add: places_diff\<close>)
  have step: "sell_loop p r z (l # rest) =
      sell_loop p (r - ?v) (dadd z (dsub (dmul ?v p) (dmul ?v (unit_cost l)))) rest"
    using vr rpos by (simp add: sell_loop_Cons ex)
  have b: "(r - ?v) * 10 ^ k < 10 ^ 28"
    by (rule scale_bound[OF _ Cons.prems(3)]) (use v0 in simp)
  have "sell_loop p (r - ?v) (dadd z (dsub (dmul ?v p) (dmul ?v (unit_cost l)))) rest =
     (foldl (\<lambda>z l. dadd z (dsub (dmul (remaining_vol l) p)
                               (dmul (remaining_vol l) (unit_cost l))))
        (dadd z (dsub (dmul ?v p) (dmul ?v (unit_cost l)))) rest, [])"
  proof (rule Cons.IH)
    show "\<forall>l\<in>set rest. 0 \<le> remaining_vol l \<and> places k (remaining_vol l)"
      using Cons.prems(1) by simp
    show "places k (r - ?v)" using Cons.prems(2) vp by (rule places_diff)
    show "(r - ?v) * 10 ^ k < 10 ^ 28" by (rule b)
    show "lots_volume rest < r - ?v" using lt by simp
  qed
  with step show ?case by simp
qed

text \<open>A request within the volume held removes exactly the request.\<close>

lemma shrink_loop_volume:
  assumes "\<forall>l\<in>set ls. 0 \<le> remaining_vol l \<and> places k (remaining_vol l)"
    and "places k r" and "0 \<le> r" and "r \<le> lots_volume ls"
    and "lots_volume ls * 10 ^ k < 10 ^ 28"
  shows "lots_volume (shrink_loop r ls) = lots_volume ls - r
    \<and> (\<forall>l\<in>set (shrink_loop r ls). 0 \<le> remaining_vol l \<and> places k (remaining_vol l))"
  using assms
proof (induction ls arbitrary: r)
  case Nil
  then show ?case by simp
next
  case (Cons l rest)
  let ?v = "remaining_vol l"
  let ?S = "lots_volume (l # rest)"
  have v0: "0 \<le> ?v" and vp: "places k ?v" using Cons.prems(1) by simp_all
  have rest0: "0 \<le> lots_volume rest"
    using Cons.prems(1) by (intro lots_volume_nonneg) simp
  have restall: "\<forall>l\<in>set rest. 0 \<le> remaining_vol l \<and> places k (remaining_vol l)"
    using Cons.prems(1) by simp
  have Sb: "?S * 10 ^ k < 10 ^ 28" using Cons.prems(5) .
  show ?case
  proof (cases "0 < r")
    case False
    with Cons.prems(3) have "r = 0" by simp
    then show ?thesis using Cons.prems(1) by (simp add: shrink_loop_Cons)
  next
    case rpos: True
    show ?thesis
    proof (cases "?v \<le> r")
      case True
      have ex: "dsub r ?v = r - ?v"
        unfolding dsub_def
        by (rule rnd_fits[of k _ ?S])
           (use True Cons.prems(2,4) vp v0 Sb in \<open>simp_all add: places_diff\<close>)
      have eq: "shrink_loop r (l # rest) = shrink_loop (r - ?v) rest"
        using True rpos by (simp add: shrink_loop_Cons ex)
      have rb: "lots_volume rest * 10 ^ k < 10 ^ 28"
        by (rule scale_bound[OF _ Sb]) (use v0 in simp)
      have "lots_volume (shrink_loop (r - ?v) rest) = lots_volume rest - (r - ?v)
        \<and> (\<forall>l\<in>set (shrink_loop (r - ?v) rest). 0 \<le> remaining_vol l \<and> places k (remaining_vol l))"
      proof (rule Cons.IH)
        show "\<forall>l\<in>set rest. 0 \<le> remaining_vol l \<and> places k (remaining_vol l)" by (rule restall)
        show "places k (r - ?v)" using Cons.prems(2) vp by (rule places_diff)
        show "0 \<le> r - ?v" using True by simp
        show "r - ?v \<le> lots_volume rest" using Cons.prems(4) by simp
        show "lots_volume rest * 10 ^ k < 10 ^ 28" by (rule rb)
      qed
      then show ?thesis by (simp add: eq)
    next
      case False
      then have lt: "r < ?v" by simp
      have ex: "dsub ?v r = ?v - r"
        unfolding dsub_def
        by (rule rnd_fits[of k _ ?S])
           (use lt Cons.prems(2,3) vp rest0 Sb in \<open>simp_all add: places_diff\<close>)
      have eq: "shrink_loop r (l # rest) =
          l\<lparr>remaining_vol := ?v - r, total_cost := dmul (?v - r) (unit_cost l)\<rparr> # rest"
        using False rpos by (simp add: shrink_loop_Cons ex)
      have "places k (?v - r)" using vp Cons.prems(2) by (rule places_diff)
      then show ?thesis using restall lt by (simp add: eq)
    qed
  qed
qed

lemma sum_loop_exact:
  assumes "\<forall>l\<in>set ls. 0 \<le> remaining_vol l \<and> places k (remaining_vol l)"
    and "places k a" and "0 \<le> a" and "(a + lots_volume ls) * 10 ^ k < 10 ^ 28"
  shows "foldl (\<lambda>acc l. dadd acc (remaining_vol l)) a ls = a + lots_volume ls"
  using assms
proof (induction ls arbitrary: a)
  case Nil
  show ?case by simp
next
  case (Cons l rest)
  let ?v = "remaining_vol l"
  have v0: "0 \<le> ?v" and vp: "places k ?v" using Cons.prems(1) by simp_all
  have rest0: "0 \<le> lots_volume rest"
    using Cons.prems(1) by (intro lots_volume_nonneg) simp
  have ex: "dadd a ?v = a + ?v"
    unfolding dadd_def
    by (rule rnd_fits[of k _ "a + lots_volume (l # rest)"])
       (use Cons.prems(2,3,4) vp v0 rest0 in \<open>simp_all add: places_add\<close>)
  have "foldl (\<lambda>acc l. dadd acc (remaining_vol l)) (a + ?v) rest = (a + ?v) + lots_volume rest"
  proof (rule Cons.IH)
    show "\<forall>l\<in>set rest. 0 \<le> remaining_vol l \<and> places k (remaining_vol l)"
      using Cons.prems(1) by simp
    show "places k (a + ?v)" using Cons.prems(2) vp by (rule places_add)
    show "0 \<le> a + ?v" using Cons.prems(3) v0 by simp
    show "(a + ?v + lots_volume rest) * 10 ^ k < 10 ^ 28"
      using Cons.prems(4) by (simp add: add.assoc)
  qed
  then show ?case by (simp add: ex add.assoc)
qed

lemma total_remaining_exact:
  assumes "\<forall>l\<in>set (lots rec). 0 \<le> remaining_vol l \<and> places k (remaining_vol l)"
    and "lots_volume (lots rec) * 10 ^ k < 10 ^ 28"
  shows "fst (total_remaining rec) = lots_volume (lots rec)"
  using sum_loop_exact[OF assms(1), of 0] assms(2) by (simp add: total_remaining_def)

section \<open>The volume balance along a run\<close>

lemma ledger_inv_bounds:
  assumes "ledger_inv k rec s"
  shows "0 \<le> lots_volume (lots rec)" and "lots_volume (lots rec) \<le> buy_vol rec"
    and "lots_volume (lots rec) * 10 ^ k < 10 ^ 28"
    and "fst (total_remaining rec) = lots_volume (lots rec)"
proof -
  have all: "\<forall>l\<in>set (lots rec). 0 \<le> remaining_vol l \<and> places k (remaining_vol l)"
    using assms by (simp add: ledger_inv_def)
  then show nn: "0 \<le> lots_volume (lots rec)" by (intro lots_volume_nonneg) simp
  show le: "lots_volume (lots rec) \<le> buy_vol rec"
    using assms by (simp add: ledger_inv_def)
  have bb: "buy_vol rec * 10 ^ k < 10 ^ 28" using assms by (simp add: ledger_inv_def)
  show b: "lots_volume (lots rec) * 10 ^ k < 10 ^ 28" by (rule scale_bound[OF le bb])
  show "fst (total_remaining rec) = lots_volume (lots rec)"
    by (rule total_remaining_exact[OF all b])
qed

lemma buy_keeps_inv:
  assumes "ledger_inv k rec s" and "admissible k rec (Buy vol cost fee)"
    and "buy_branch rec vol cost fee = Some rec'"
  shows "ledger_inv k rec' s"
proof -
  have v: "0 \<le> vol" "places k vol" "(buy_vol rec + vol) * 10 ^ k < 10 ^ 28"
    using assms(2) by simp_all
  have inv: "places k (buy_vol rec)" "lots_volume (lots rec) = buy_vol rec - sell_vol rec - s"
    "0 \<le> sell_vol rec" "0 \<le> s"
    using assms(1) by (simp_all add: ledger_inv_def)
  have b0: "0 \<le> buy_vol rec"
    using ledger_inv_bounds(1)[OF assms(1)] inv by linarith
  have ex: "dadd (buy_vol rec) vol = buy_vol rec + vol"
    unfolding dadd_def
    by (rule rnd_fits[of k _ "buy_vol rec + vol"]) (use v inv b0 in \<open>simp_all add: places_add\<close>)
  have r': "rec' = rec\<lparr>buy_vol := buy_vol rec + vol,
               buy_cost := dadd (buy_cost rec) (dadd cost fee),
               fees := dadd (fees rec) fee,
               lots := lots rec @ [\<lparr>remaining_vol = vol,
                 unit_cost = (if 0 < vol then rnd (dadd cost fee / vol) else 0),
                 total_cost = dadd cost fee\<rparr>]\<rparr>"
    using assms(3) by (simp add: buy_branch_eq ex)
  show ?thesis
    using assms(1) v by (simp add: r' ledger_inv_def places_add)
qed

lemma sell_keeps_inv:
  assumes "ledger_inv k rec s" and "admissible k rec (Sell vol cost fee)"
    and "sell_branch rec vol cost fee = Some rec'"
  shows "ledger_inv k rec' s"
proof -
  have v: "0 \<le> vol" "places k vol" "vol \<le> lots_volume (lots rec)"
    using assms(2) by simp_all
  have all: "\<forall>l\<in>set (lots rec). 0 \<le> remaining_vol l \<and> places k (remaining_vol l)"
    and inv: "places k (sell_vol rec)" "lots_volume (lots rec) = buy_vol rec - sell_vol rec - s"
      "0 \<le> sell_vol rec" "0 \<le> s" "buy_vol rec * 10 ^ k < 10 ^ 28"
    using assms(1) by (simp_all add: ledger_inv_def)
  have "sell_vol rec + vol \<le> buy_vol rec" using v inv by linarith
  then have ex: "dadd (sell_vol rec) vol = sell_vol rec + vol"
    unfolding dadd_def
    by (intro rnd_fits[of k _ "buy_vol rec"]) (use v inv in \<open>simp_all add: places_add\<close>)
  from shrink_loop_volume[OF all v(2) v(1) v(3) ledger_inv_bounds(3)[OF assms(1)]]
  have lv: "lots_volume (shrink_loop vol (lots rec)) = lots_volume (lots rec) - vol"
    and la: "\<forall>l\<in>set (shrink_loop vol (lots rec)). 0 \<le> remaining_vol l \<and> places k (remaining_vol l)"
    by simp_all
  have r': "lots rec' = shrink_loop vol (lots rec)" "sell_vol rec' = sell_vol rec + vol"
    "buy_vol rec' = buy_vol rec"
    using assms(3) by (auto simp: sell_branch_eq ex)
  show ?thesis
    unfolding ledger_inv_def r'
    using assms(1) v lv la inv by (simp add: ledger_inv_def places_add)
qed

lemma shrink_keeps_inv:
  assumes "ledger_inv k rec s" and "admissible k rec (Shrink target)"
  shows "ledger_inv k (shrink_lots_fifo_to_target rec target) (s + shrink_request rec target)"
proof -
  define S where "S = lots_volume (lots rec)"
  have t: "0 \<le> target" "places k target" using assms(2) by simp_all
  have cur: "fst (total_remaining rec) = S"
    unfolding S_def by (rule ledger_inv_bounds(4)[OF assms(1)])
  have all: "\<forall>l\<in>set (lots rec). 0 \<le> remaining_vol l \<and> places k (remaining_vol l)"
    and inv: "places k s" "S = buy_vol rec - sell_vol rec - s" "0 \<le> s"
    and others: "places k (buy_vol rec)" "places k (sell_vol rec)" "0 \<le> sell_vol rec"
      "buy_vol rec * 10 ^ k < 10 ^ 28"
    using assms(1) by (simp_all add: ledger_inv_def S_def)
  have Sp: "places k S" unfolding S_def using all by (intro lots_volume_places) simp
  have Sb: "lots_volume (lots rec) * 10 ^ k < 10 ^ 28"
    by (rule ledger_inv_bounds(3)[OF assms(1)])
  show ?thesis
  proof (cases "S \<le> target")
    case True
    then have "shrink_lots_fifo_to_target rec target = rec" "shrink_request rec target = 0"
      by (simp_all add: shrink_eq shrink_request_def cur split_beta)
    then show ?thesis using assms(1) by simp
  next
    case False
    then have lt: "target < S" by simp
    have ex: "dsub S target = S - target"
      unfolding dsub_def
      by (rule rnd_fits[of k _ S]) (use lt t Sp Sb in \<open>simp_all add: places_diff S_def\<close>)
    have req: "shrink_request rec target = S - target"
      using False by (simp add: shrink_request_def cur split_beta)
    have res: "shrink_lots_fifo_to_target rec target
        = rec\<lparr>lots := shrink_loop (S - target) (lots rec)\<rparr>"
      using False by (simp add: shrink_eq cur ex)
    have "lots_volume (shrink_loop (S - target) (lots rec)) = lots_volume (lots rec) - (S - target)
      \<and> (\<forall>l\<in>set (shrink_loop (S - target) (lots rec)).
            0 \<le> remaining_vol l \<and> places k (remaining_vol l))"
      by (rule shrink_loop_volume[OF all _ _ _ Sb])
         (use lt t Sp in \<open>simp_all add: places_diff S_def\<close>)
    then have lv: "lots_volume (shrink_loop (S - target) (lots rec)) = target"
      and la: "\<forall>l\<in>set (shrink_loop (S - target) (lots rec)).
            0 \<le> remaining_vol l \<and> places k (remaining_vol l)"
      by (simp_all add: S_def)
    have p: "places k (s + (S - target))"
      by (intro places_add places_diff inv(1) Sp t(2))
    have nn: "0 \<le> s + (S - target)" using lt inv(3) by simp
    have bal: "target = buy_vol rec - sell_vol rec - (s + (S - target))"
      using inv(2) by simp
    show ?thesis
      unfolding res req ledger_inv_def
      using la lv p nn bal others by simp
  qed
qed

lemma apply_op_keeps_inv:
  assumes "ledger_inv k rec s" and "admissible k rec x" and "apply_op rec x = Some rec'"
  shows "ledger_inv k rec'
           (s + (case x of Shrink target \<Rightarrow> shrink_request rec target | _ \<Rightarrow> 0))"
proof (cases x)
  case (Buy vol cost fee)
  with assms buy_keeps_inv[of k rec s vol cost fee rec'] show ?thesis by simp
next
  case (Sell vol cost fee)
  with assms sell_keeps_inv[of k rec s vol cost fee rec'] show ?thesis by simp
next
  case (Shrink target)
  with assms shrink_keeps_inv[of k rec s target] show ?thesis by auto
qed

lemma run_keeps_inv:
  "ledger_inv k rec s \<Longrightarrow> admissible_run k rec xs \<Longrightarrow>
     \<exists>rec'. run rec xs = Some rec' \<and> ledger_inv k rec' (s + shrunk_total rec xs)"
proof (induction xs arbitrary: rec s)
  case Nil
  then show ?case by simp
next
  case (Cons x xs)
  obtain rec1 where r1: "apply_op rec x = Some rec1" using apply_op_Some by blast
  have ad: "admissible k rec x" "admissible_run k rec1 xs" using Cons.prems(2) r1 by simp_all
  let ?s1 = "s + (case x of Shrink target \<Rightarrow> shrink_request rec target | _ \<Rightarrow> 0)"
  have "ledger_inv k rec1 ?s1" by (rule apply_op_keeps_inv[OF Cons.prems(1) ad(1) r1])
  from Cons.IH[OF this ad(2)] obtain rec' where
    "run rec1 xs = Some rec'" "ledger_inv k rec' (?s1 + shrunk_total rec1 xs)" by blast
  then show ?case using r1 by (simp add: add.assoc)
qed

lemma admissible_run_take: "admissible_run k rec xs \<Longrightarrow> admissible_run k rec (take n xs)"
proof (induction xs arbitrary: rec n)
  case Nil
  then show ?case by simp
next
  case (Cons x xs)
  then show ?case by (cases n) (auto split: option.splits)
qed

lemma ledger_inv_new: "ledger_inv k new_ledger 0"
  by (simp add: ledger_inv_def new_ledger_def)

section \<open>Properties\<close>

text \<open>
  C1 (FIFO order).  After buys of 2 at price 10 and 3 at price 20, a sell of 3 with proceeds
  90 and no fee realizes \<open>2 * (30 - 10) + 1 * (30 - 20) = 50\<close> and leaves the second lot
  with volume 2.  In general a sell leaves a suffix of the queue it found: it removes lots
  from the head only, every lot behind the new head is untouched, and the unit costs keep
  their order.
\<close>

theorem fifo_order:
  "map_option (\<lambda>r. (realized_pnl r, lots r))
     (run new_ledger [Buy 2 (dmul 2 10) 0, Buy 3 (dmul 3 20) 0, Sell 3 90 0])
   = Some (2 * (30 - 10) + 1 * (30 - 20),
           [\<lparr>remaining_vol = 2, unit_cost = 20, total_cost = 40\<rparr>])
   \<and> (\<exists>rec' n. sell_branch rec vol cost fee = Some rec' \<and> n \<le> length (lots rec)
         \<and> map unit_cost (lots rec') = drop n (map unit_cost (lots rec))
         \<and> tl (lots rec') = drop (Suc n) (lots rec))"
proof
  show "map_option (\<lambda>r. (realized_pnl r, lots r))
     (run new_ledger [Buy 2 (dmul 2 10) 0, Buy 3 (dmul 3 20) 0, Sell 3 90 0])
   = Some (2 * (30 - 10) + 1 * (30 - 20),
           [\<lparr>remaining_vol = 2, unit_cost = 20, total_cost = 40\<rparr>])"
    by (simp add: eval_defs rnd_eval[where k=0])
  from shrink_loop_suffix[of "lots rec" vol]
  show "\<exists>rec' n. sell_branch rec vol cost fee = Some rec' \<and> n \<le> length (lots rec)
         \<and> map unit_cost (lots rec') = drop n (map unit_cost (lots rec))
         \<and> tl (lots rec') = drop (Suc n) (lots rec)"
    by (auto simp: sell_branch_eq)
qed

text \<open>
  C2 (end-to-end scenario).  A buy of 1.0 at 9000 with fee 9 and a sell of 0.4 at 10000 with
  fee 4, both for the pair \<^verbatim>\<open>BTC/USD\<close> and without a \<^verbatim>\<open>cost\<close> entry, go to one ledger,
  whose row has average buy price 9009, average sell price 9990, remaining volume 0.6,
  average cost of the remainder 9009 and realized PnL 392.4.
\<close>

theorem end_to_end_scenario:
  "Option.bind (aggregate_trades
       [\<lparr>t_pair = ''BTC/USD'', t_type = ''buy'', t_vol = Num 1, t_price = Num 9000,
         t_cost = Missing, t_fee = Num 9, t_time = Num 1\<rparr>,
        \<lparr>t_pair = ''BTC/USD'', t_type = ''sell'', t_vol = Num (4 / 10), t_price = Num 10000,
         t_cost = Missing, t_fee = Num 4, t_time = Num 2\<rparr>])
      (\<lambda>a. Option.bind (a (parse_pair ''BTC/USD''))
        (\<lambda>r. map_option
           (\<lambda>w. (avg_buy_price w, avg_sell_price w, remaining_unsold_volume w,
                 avg_buy_price_of_remaining w, row_realized_pnl w))
           (build_row r 0)))
    = Some (9009, 10000 - 4 / (4 / 10), 6 / 10, 9009, (4 / 10) * (9990 - 9009))"
proof -
  have pp: "parse_pair ''BTC/USD'' = (''BT'', ''CUSD'')" by code_simp
  have st: "strip ''BTC/USD'' = ''BTC/USD''" by code_simp
  have lo: "lower ''buy'' = ''buy''" "lower ''sell'' = ''sell''" by code_simp+
  show ?thesis
    by (simp add: aggregate_trades_def parse_trade_def apply_trade_def ONLY_THESE_QUOTES_def
        build_row_def pp st lo eval_defs rnd_eval[where k=1])
qed


text \<open>
  The same happens whenever the unit cost is rounded: 10 / 3 is kept as
  3.333333333333333333333333333, and three times that is not 10.
\<close>

lemma lot_equation_rounded:
  "map_option (\<lambda>r. map lot_ok (lots r)) (run new_ledger [Buy 3 10 0]) = Some [False]"
proof -
  have r: "rnd (10 / 3) = 3333333333333333333333333333 / 10 ^ 27" by code_simp
  have m: "rnd (3 * (3333333333333333333333333333 / 10 ^ 27)) = 9999999999999999999999999999 / 10 ^ 27"
    by (subst rnd_eval[where k=27]) simp_all
  have "rnd (3 * rnd (10 / 3)) = 9999999999999999999999999999 / 10 ^ 27"
    by (simp only: r m)
  then have ne: "rnd (3 * rnd (10 / 3)) \<noteq> 10"
    by (simp only:) simp
  show ?thesis
    using ne ne[symmetric] by (simp add: eval_defs lot_ok_def rnd_eval[where k=0])
qed



text \<open>
  C4 (volume balance).  The balance between the queue and the totals fails when a sell
  exceeds the volume held: a sell of 1 on a new ledger leaves an empty queue, and bought
  minus sold minus shrunk is \<open>- 1\<close>.
\<close>

theorem volume_balance_counterexample:
  "map_option (\<lambda>r. (lots_volume (lots r),
                     buy_vol r - sell_vol r - shrunk_total new_ledger [Sell 1 1 0]))
     (run new_ledger [Sell 1 1 0]) = Some (0, - 1)"
  by (simp add: eval_defs rnd_eval[where k=0])

text \<open>
  C4, amended.  Along a run of operations from a new ledger in which every volume and
  target is non-negative with at most \<open>k\<close> decimal places, the bought volume stays below
  \<open>10 ^ (28 - k)\<close> and no sell exceeds the volume held, after every prefix the volumes of
  the queue sum to bought minus sold minus the volume the shrinks were asked to remove;
  the sum \<^verbatim>\<open>total_remaining\<close> computes is that number too.
\<close>

theorem volume_balance:
  assumes "admissible_run k new_ledger xs"
  shows "\<exists>rec'. run new_ledger (take n xs) = Some rec'
     \<and> lots_volume (lots rec')
         = buy_vol rec' - sell_vol rec' - shrunk_total new_ledger (take n xs)
     \<and> fst (total_remaining rec')
         = buy_vol rec' - sell_vol rec' - shrunk_total new_ledger (take n xs)"
proof -
  have "admissible_run k new_ledger (take n xs)" using assms by (rule admissible_run_take)
  from run_keeps_inv[OF ledger_inv_new this] obtain rec' where
    r: "run new_ledger (take n xs) = Some rec'"
    and i: "ledger_inv k rec' (0 + shrunk_total new_ledger (take n xs))"
    by blast
  have "lots_volume (lots rec')
      = buy_vol rec' - sell_vol rec' - shrunk_total new_ledger (take n xs)"
    using i by (simp add: ledger_inv_def)
  moreover have "fst (total_remaining rec') = lots_volume (lots rec')"
    by (rule ledger_inv_bounds(4)[OF i])
  ultimately show ?thesis using r by simp
qed

theorem volume_balance_witness:
  "admissible_run 1 new_ledger [Buy (15 / 10) 15 0, Buy 3 60 0, Sell 2 50 1, Shrink 1]
   \<and> (\<exists>rec'. run new_ledger (take 4 [Buy (15 / 10) 15 0, Buy 3 60 0, Sell 2 50 1, Shrink 1])
          = Some rec'
     \<and> lots_volume (lots rec') = buy_vol rec' - sell_vol rec'
          - shrunk_total new_ledger (take 4 [Buy (15 / 10) 15 0, Buy 3 60 0, Sell 2 50 1, Shrink 1])
     \<and> fst (total_remaining rec') = buy_vol rec' - sell_vol rec'
          - shrunk_total new_ledger (take 4 [Buy (15 / 10) 15 0, Buy 3 60 0, Sell 2 50 1, Shrink 1]))"
proof -
  have h: "admissible_run 1 new_ledger [Buy (15 / 10) 15 0, Buy 3 60 0, Sell 2 50 1, Shrink 1]"
    by (simp add: eval_defs places_iff lots_volume_def rnd_eval[where k=1])
  from h volume_balance[OF h, of 4] show ?thesis by blast
qed

text \<open>
  C5 (pair normalisation).  The four identifiers of the docstring of \<^verbatim>\<open>parse_pair\<close>,
  evaluated: three give the documented pair, and \<^verbatim>\<open>ETHUSD\<close>, which has no \<^verbatim>\<open>Z\<close>, is cut
  four characters from its end, because the fallback tries the length 4 before the length 3.
\<close>

theorem parse_pair_examples:
  "parse_pair ''XXBTZUSD'' = (''BTC'', ''USD'') \<and> parse_pair ''XETHZUSD'' = (''ETH'', ''USD'')
   \<and> parse_pair ''ETHUSD'' = (''ET'', ''HUSD'') \<and> parse_pair ''ETH/USDT'' = (''ETH'', ''USDT'')"
  by code_simp

text \<open>
  C6 (shrinks leave the realized accounting alone).  Whatever the targets, a sequence of
  shrinks changes none of realized PnL, sold volume, sell proceeds and fees.
\<close>

theorem shrinks_keep_realized_accounting:
  "realized_pnl (foldl shrink_lots_fifo_to_target rec targets) = realized_pnl rec
   \<and> sell_vol (foldl shrink_lots_fifo_to_target rec targets) = sell_vol rec
   \<and> sell_proceeds (foldl shrink_lots_fifo_to_target rec targets) = sell_proceeds rec
   \<and> fees (foldl shrink_lots_fifo_to_target rec targets) = fees rec"
proof (induction targets arbitrary: rec)
  case Nil
  show ?case by simp
next
  case (Cons t ts)
  show ?case by (simp add: Cons.IH) (simp add: shrink_eq)
qed

text \<open>
  C7 (a shrink to a target at or above the volume held).  The guard of the shrink compares
  the target with the sum \<^verbatim>\<open>total_remaining\<close> computes, which is rounded to 28 digits.
  With lots of 1 and 1.2000000000000000000000000009 that sum is
  2.200000000000000000000000001, above the volume held, so a shrink to exactly the volume
  held is not a no-op: it cuts the first lot to 0.9999999999999999999999999999.
\<close>

theorem shrink_noop_counterexample:
  "map_option (\<lambda>r. (map remaining_vol (lots r), lots_volume (lots r),
        map remaining_vol (lots (shrink_lots_fifo_to_target r
          (22000000000000000000000000009 / 10 ^ 28)))))
     (run new_ledger [Buy 1 1 0, Buy (12000000000000000000000000009 / 10 ^ 28) 12 0])
   = Some ([1, 12000000000000000000000000009 / 10 ^ 28],
           22000000000000000000000000009 / 10 ^ 28,
           [9999999999999999999999999999 / 10 ^ 28, 12000000000000000000000000009 / 10 ^ 28])"
proof -
  define V2 :: rat where "V2 = 12000000000000000000000000009 / 10 ^ 28"
  define S :: rat where "S = 22000000000000000000000000009 / 10 ^ 28"
  define C :: rat where "C = 2200000000000000000000000001 / 10 ^ 27"
  define E :: rat where "E = 1 / 10 ^ 28"
  define N :: rat where "N = 9999999999999999999999999999 / 10 ^ 28"
  have r1: "rnd (1 + 12000000000000000000000000009 / 10 ^ 28)
      = 2200000000000000000000000001 / 10 ^ 27"
    by code_simp
  have r2: "rnd (2200000000000000000000000001 / 10 ^ 27
      - 22000000000000000000000000009 / 10 ^ 28) = 1 / 10 ^ 28"
    by (subst rnd_eval[where k=28]) simp_all
  have r3: "rnd (1 - 1 / 10 ^ 28) = 9999999999999999999999999999 / 10 ^ 28"
    by (subst rnd_eval[where k=28]) simp_all
  have r4: "rnd 1 = 1" by (rule rnd_eval[where k=0]) simp_all
  have d0: "dadd 0 1 = 1" unfolding dadd_def using r4 by simp
  have d1: "dadd 1 V2 = C" unfolding V2_def C_def dadd_def by (rule r1)
  have d2: "dsub C S = E" unfolding C_def S_def E_def dsub_def by (rule r2)
  have d3: "dsub 1 E = N" unfolding E_def N_def dsub_def by (rule r3)
  have c: "\<not> C \<le> S" "0 < E" "\<not> 1 \<le> E"
    by (simp_all add: C_def S_def E_def)
  have s: "1 + V2 = S" by (simp add: V2_def S_def)
  have two: "map remaining_vol (lots (shrink_lots_fifo_to_target r S)) = [N, V2]"
    if "lots r = [a, b]" "remaining_vol a = 1" "remaining_vol b = V2" for r a b
    using that c by (simp add: shrink_eq total_remaining_def shrink_loop_Cons d0 d1 d2 d3)
  have "map_option (\<lambda>r. (map remaining_vol (lots r), lots_volume (lots r),
        map remaining_vol (lots (shrink_lots_fifo_to_target r S))))
     (run new_ledger [Buy 1 1 0, Buy V2 12 0]) = Some ([1, V2], 1 + V2, [N, V2])"
    by (simp add: buy_branch_eq new_ledger_def two)
  then show ?thesis
    unfolding s unfolding V2_def S_def N_def .
qed

text \<open>
  C7, amended.  When the lot volumes are non-negative with at most \<open>k\<close> decimal places and
  the volume held is below \<open>10 ^ (28 - k)\<close>, a shrink to a target at or above the volume held
  returns the whole ledger as it was: every accumulator and the queue, lot by lot.
\<close>

theorem shrink_noop:
  assumes "\<forall>l\<in>set (lots rec). 0 \<le> remaining_vol l \<and> places k (remaining_vol l)"
    and "lots_volume (lots rec) * 10 ^ k < 10 ^ 28"
    and "lots_volume (lots rec) \<le> target"
  shows "shrink_lots_fifo_to_target rec target = rec"
proof -
  have "fst (total_remaining rec) = lots_volume (lots rec)"
    using assms(1,2) by (rule total_remaining_exact)
  with assms(3) show ?thesis by (simp add: shrink_eq)
qed

theorem shrink_noop_witness:
  "list_all (\<lambda>l. 0 \<le> remaining_vol l \<and> places 1 (remaining_vol l))
     (lots (new_ledger\<lparr>buy_vol := 45 / 10, buy_cost := 75,
        lots := [\<lparr>remaining_vol = 15 / 10, unit_cost = 10, total_cost = 15\<rparr>,
                 \<lparr>remaining_vol = 3, unit_cost = 20, total_cost = 60\<rparr>]\<rparr>))
   \<and> lots_volume (lots (new_ledger\<lparr>buy_vol := 45 / 10, buy_cost := 75,
        lots := [\<lparr>remaining_vol = 15 / 10, unit_cost = 10, total_cost = 15\<rparr>,
                 \<lparr>remaining_vol = 3, unit_cost = 20, total_cost = 60\<rparr>]\<rparr>)) * 10 ^ 1 < 10 ^ 28
   \<and> lots_volume (lots (new_ledger\<lparr>buy_vol := 45 / 10, buy_cost := 75,
        lots := [\<lparr>remaining_vol = 15 / 10, unit_cost = 10, total_cost = 15\<rparr>,
                 \<lparr>remaining_vol = 3, unit_cost = 20, total_cost = 60\<rparr>]\<rparr>)) \<le> 45 / 10
   \<and> shrink_lots_fifo_to_target (new_ledger\<lparr>buy_vol := 45 / 10, buy_cost := 75,
        lots := [\<lparr>remaining_vol = 15 / 10, unit_cost = 10, total_cost = 15\<rparr>,
                 \<lparr>remaining_vol = 3, unit_cost = 20, total_cost = 60\<rparr>]\<rparr>) (45 / 10)
     = new_ledger\<lparr>buy_vol := 45 / 10, buy_cost := 75,
        lots := [\<lparr>remaining_vol = 15 / 10, unit_cost = 10, total_cost = 15\<rparr>,
                 \<lparr>remaining_vol = 3, unit_cost = 20, total_cost = 60\<rparr>]\<rparr>"
proof -
  let ?r = "new_ledger\<lparr>buy_vol := 45 / 10, buy_cost := 75,
        lots := [\<lparr>remaining_vol = 15 / 10, unit_cost = 10, total_cost = 15\<rparr>,
                 \<lparr>remaining_vol = 3, unit_cost = 20, total_cost = 60\<rparr>]\<rparr>"
  have h1: "\<forall>l\<in>set (lots ?r). 0 \<le> remaining_vol l \<and> places 1 (remaining_vol l)"
    by (simp add: places_iff)
  have h2: "lots_volume (lots ?r) * 10 ^ 1 < 10 ^ 28" by simp
  have h3: "lots_volume (lots ?r) \<le> 45 / 10" by simp
  from h1 h2 h3 shrink_noop[OF h1 h2 h3] show ?thesis
    unfolding list_all_iff by blast
qed

text \<open>
  C8 (oversell).  With volumes of 29 significant digits the subtraction
  \<^verbatim>\<open>remaining -= use\<close> is rounded, and a sell above the volume held can leave a lot
  behind: the lots hold 1 and 1.2000000000000000000000000001, the sell asks for
  2.2000000000000000000000000002, and after the first lot the request is rounded to 1.2.
\<close>

theorem oversell_counterexample:
  "map_option (\<lambda>r. lots_volume (lots r))
     (run new_ledger [Buy 1 1 0, Buy (12000000000000000000000000001 / 10 ^ 28) 12 0])
     = Some (22000000000000000000000000001 / 10 ^ 28)
   \<and> (22000000000000000000000000001 / 10 ^ 28 :: rat) < 22000000000000000000000000002 / 10 ^ 28
   \<and> map_option (\<lambda>r. map remaining_vol (lots r))
     (run new_ledger [Buy 1 1 0, Buy (12000000000000000000000000001 / 10 ^ 28) 12 0,
                      Sell (22000000000000000000000000002 / 10 ^ 28) 3 0])
     = Some [1 / 10 ^ 28]"
proof -
  define V2 :: rat where "V2 = 12000000000000000000000000001 / 10 ^ 28"
  define V :: rat where "V = 22000000000000000000000000002 / 10 ^ 28"
  define T :: rat where "T = 12 / 10"
  define E :: rat where "E = 1 / 10 ^ 28"
  have r1: "rnd (22000000000000000000000000002 / 10 ^ 28 - 1) = 12 / 10"
    by code_simp
  have r2: "rnd (12000000000000000000000000001 / 10 ^ 28 - 12 / 10) = 1 / 10 ^ 28"
    by (subst rnd_eval[where k=28]) simp_all
  have d1: "dsub V 1 = T" unfolding V_def T_def dsub_def by (rule r1)
  have d2: "dsub V2 T = E" unfolding V2_def T_def E_def dsub_def by (rule r2)
  have c: "1 \<le> V" "0 < V" "\<not> V2 \<le> T" "0 < T"
    by (simp_all add: V_def V2_def T_def)
  have s: "1 + V2 = 22000000000000000000000000001 / 10 ^ 28"
    by (simp add: V2_def)
  have two: "map remaining_vol (shrink_loop V [a, b]) = [E]"
    if "remaining_vol a = 1" "remaining_vol b = V2" for a b
    using that c by (simp add: shrink_loop_Cons d1 d2)
  have A: "map_option (\<lambda>r. lots_volume (lots r)) (run new_ledger [Buy 1 1 0, Buy V2 12 0])
      = Some (1 + V2)"
    by (simp add: buy_branch_eq new_ledger_def)
  have B: "map_option (\<lambda>r. map remaining_vol (lots r))
      (run new_ledger [Buy 1 1 0, Buy V2 12 0, Sell V 3 0]) = Some [E]"
    by (simp add: buy_branch_eq sell_branch_eq new_ledger_def two)
  have C: "(22000000000000000000000000001 / 10 ^ 28 :: rat)
      < 22000000000000000000000000002 / 10 ^ 28"
    by simp
  from A B C show ?thesis
    unfolding s unfolding V_def V2_def E_def by (intro conjI)
qed

text \<open>
  C8, amended.  When the lot volumes are non-negative, the lot volumes and the sell volume
  have at most \<open>k\<close> decimal places, the sell volume is below \<open>10 ^ (28 - k)\<close> and exceeds the
  volume held, the sell returns, leaves the queue empty, and adds to the realized PnL the
  amount matched against the lots that were there: each lot whole, in queue order.
\<close>

theorem oversell_saturates:
  assumes "\<forall>l\<in>set (lots rec). 0 \<le> remaining_vol l \<and> places k (remaining_vol l)"
    and "places k vol" and "vol * 10 ^ k < 10 ^ 28"
    and "lots_volume (lots rec) < vol"
  shows "\<exists>rec' p. per_unit (dsub cost fee) vol = Some p
     \<and> sell_branch rec vol cost fee = Some rec'
     \<and> lots rec' = [] \<and> fst (total_remaining rec') = 0
     \<and> realized_pnl rec' = dadd (realized_pnl rec) (matched_pnl p (lots rec))"
proof -
  define p where "p = (if 0 < vol then rnd (dsub cost fee / vol) else 0)"
  have loop: "sell_loop p vol 0 (lots rec) = (matched_pnl p (lots rec), [])"
    unfolding matched_pnl_def by (rule sell_loop_oversell[OF assms])
  have "shrink_loop vol (lots rec) = snd (sell_loop p vol 0 (lots rec))"
    by (simp only: sell_loop_lots)
  then have empty: "shrink_loop vol (lots rec) = []" by (simp add: loop)
  show ?thesis
    using loop empty
    by (simp add: sell_branch_eq per_unit_eq total_remaining_def flip: p_def)
qed

theorem oversell_saturates_witness:
  "list_all (\<lambda>l. 0 \<le> remaining_vol l \<and> places 0 (remaining_vol l))
     (lots (new_ledger\<lparr>buy_vol := 5, buy_cost := 80,
        lots := [\<lparr>remaining_vol = 2, unit_cost = 10, total_cost = 20\<rparr>,
                 \<lparr>remaining_vol = 3, unit_cost = 20, total_cost = 60\<rparr>]\<rparr>))
   \<and> places 0 6 \<and> (6 :: rat) * 10 ^ 0 < 10 ^ 28
   \<and> lots_volume (lots (new_ledger\<lparr>buy_vol := 5, buy_cost := 80,
        lots := [\<lparr>remaining_vol = 2, unit_cost = 10, total_cost = 20\<rparr>,
                 \<lparr>remaining_vol = 3, unit_cost = 20, total_cost = 60\<rparr>]\<rparr>)) < 6
   \<and> map_option (\<lambda>r. (lots r, realized_pnl r))
       (sell_branch (new_ledger\<lparr>buy_vol := 5, buy_cost := 80,
        lots := [\<lparr>remaining_vol = 2, unit_cost = 10, total_cost = 20\<rparr>,
                 \<lparr>remaining_vol = 3, unit_cost = 20, total_cost = 60\<rparr>]\<rparr>) 6 90 0)
     = Some ([], 2 * (15 - 10) + 3 * (15 - 20))"
proof -
  let ?r = "new_ledger\<lparr>buy_vol := 5, buy_cost := 80,
        lots := [\<lparr>remaining_vol = 2, unit_cost = 10, total_cost = 20\<rparr>,
                 \<lparr>remaining_vol = 3, unit_cost = 20, total_cost = 60\<rparr>]\<rparr>"
  have h1: "\<forall>l\<in>set (lots ?r). 0 \<le> remaining_vol l \<and> places 0 (remaining_vol l)"
    by (simp add: places_iff)
  have h2: "places 0 6" by (simp add: places_iff)
  have h3: "(6 :: rat) * 10 ^ 0 < 10 ^ 28" by simp
  have h4: "lots_volume (lots ?r) < 6" by simp
  have p: "per_unit (dsub 90 0) 6 = Some 15"
    by (simp add: eval_defs rnd_eval[where k=0])
  have m: "matched_pnl 15 (lots ?r) = 2 * (15 - 10) + 3 * (15 - 20)"
    by (simp add: matched_pnl_def eval_defs rnd_eval[where k=0])
  from oversell_saturates[OF h1 h2 h3 h4, of 90 0] p m
  have "map_option (\<lambda>r. (lots r, realized_pnl r)) (sell_branch ?r 6 90 0)
     = Some ([], 2 * (15 - 10) + 3 * (15 - 20))"
    by (auto simp: new_ledger_def dadd_def rnd_eval[where k=0])
  with h1 h2 h3 h4 show ?thesis
    unfolding list_all_iff by blast
qed

text \<open>
  C9 (zero volume and zero denominators).  \<^verbatim>\<open>safe_div\<close> returns a value for every
  argument, and 0 for the denominator 0.  A buy of volume 0 returns, appending a lot with
  unit cost 0; a sell of volume 0 returns, leaving the queue as it was and with per-unit
  proceeds 0.  A row is always produced, and each of its averages is 0 when its volume is 0.
\<close>

theorem zero_volume_safe:
  "safe_div n 0 = Some 0
   \<and> (\<exists>q. safe_div n dnm = Some q)
   \<and> (\<exists>rec'. buy_branch rec 0 cost fee = Some rec'
         \<and> lots rec' = lots rec @ [\<lparr>remaining_vol = 0, unit_cost = 0, total_cost = dadd cost fee\<rparr>])
   \<and> (\<exists>rec'. sell_branch rec 0 cost fee = Some rec' \<and> lots rec' = lots rec)
   \<and> per_unit proceeds 0 = Some 0
   \<and> (\<exists>w. build_row r price = Some w
         \<and> (buy_vol r = 0 \<longrightarrow> avg_buy_price w = 0)
         \<and> (sell_vol r = 0 \<longrightarrow> avg_sell_price w = 0)
         \<and> (fst (total_remaining r) = 0 \<longrightarrow> avg_buy_price_of_remaining w = 0))"
proof (intro conjI)
  show "safe_div n 0 = Some 0" by (simp add: safe_div_def)
  show "\<exists>q. safe_div n dnm = Some q" by (simp add: safe_div_def ddiv_def)
  show "\<exists>rec'. buy_branch rec 0 cost fee = Some rec'
         \<and> lots rec' = lots rec @ [\<lparr>remaining_vol = 0, unit_cost = 0, total_cost = dadd cost fee\<rparr>]"
    by (simp add: buy_branch_eq)
  have "shrink_loop 0 (lots rec) = lots rec"
    by (cases "lots rec") (simp_all add: shrink_loop_Cons)
  then show "\<exists>rec'. sell_branch rec 0 cost fee = Some rec' \<and> lots rec' = lots rec"
    by (simp add: sell_branch_eq)
  show "per_unit proceeds 0 = Some 0" by (simp add: per_unit_eq)
  show "\<exists>w. build_row r price = Some w
         \<and> (buy_vol r = 0 \<longrightarrow> avg_buy_price w = 0)
         \<and> (sell_vol r = 0 \<longrightarrow> avg_sell_price w = 0)
         \<and> (fst (total_remaining r) = 0 \<longrightarrow> avg_buy_price_of_remaining w = 0)"
    by (simp add: build_row_def safe_div_def ddiv_def split_beta Let_def)
qed

theorem zero_volume_safe_witness:
  "buy_vol new_ledger = 0 \<and> sell_vol new_ledger = 0 \<and> fst (total_remaining new_ledger) = 0
   \<and> safe_div 7 0 = Some 0
   \<and> (\<exists>w. build_row new_ledger 0 = Some w \<and> avg_buy_price w = 0 \<and> avg_sell_price w = 0
         \<and> avg_buy_price_of_remaining w = 0)"
proof -
  have h: "buy_vol new_ledger = 0" "sell_vol new_ledger = 0"
    "fst (total_remaining new_ledger) = 0"
    by (simp_all add: new_ledger_def total_remaining_def)
  from h zero_volume_safe[of 7 1 new_ledger 0 0 0 new_ledger 0] show ?thesis by auto
qed

text \<open>
  C10 (the unit cost of a lot is never rewritten).  A buy keeps the queue it found and
  appends to it; a sell and a shrink leave a suffix of the queue whose unit costs are those
  the same lots had before.
\<close>

theorem unit_cost_constant:
  "(\<exists>rec'. buy_branch rec vol cost fee = Some rec' \<and> take (length (lots rec)) (lots rec') = lots rec)
   \<and> (\<exists>rec' n. sell_branch rec vol cost fee = Some rec'
         \<and> map unit_cost (lots rec') = drop n (map unit_cost (lots rec)))
   \<and> (\<exists>n. map unit_cost (lots (shrink_lots_fifo_to_target rec target))
         = drop n (map unit_cost (lots rec)))"
proof (intro conjI)
  show "\<exists>rec'. buy_branch rec vol cost fee = Some rec'
      \<and> take (length (lots rec)) (lots rec') = lots rec"
    by (simp add: buy_branch_eq)
  from shrink_loop_suffix[of "lots rec" vol]
  show "\<exists>rec' n. sell_branch rec vol cost fee = Some rec'
         \<and> map unit_cost (lots rec') = drop n (map unit_cost (lots rec))"
    by (auto simp: sell_branch_eq)
  show "\<exists>n. map unit_cost (lots (shrink_lots_fifo_to_target rec target))
         = drop n (map unit_cost (lots rec))"
  proof (cases "fst (total_remaining rec) \<le> target")
    case True
    then show ?thesis by (intro exI[of _ 0]) (simp add: shrink_eq)
  next
    case False
    with shrink_loop_suffix[of "lots rec" "dsub (fst (total_remaining rec)) target"]
    show ?thesis by (auto simp: shrink_eq)
  qed
qed

end
